theory Spec2Isabelle
  imports Main "HOL-Library.Sublist"
begin

section \<open>The command palette of \<^verbatim>\<open>src/components/pallette.tsx\<close>\<close>

text \<open>
  The file holds two React components and one hook. \<^verbatim>\<open>Palette\<close> owns the flag
  \<^verbatim>\<open>open\<close> and the scroll lock on the document body; \<^verbatim>\<open>CommandContainer\<close> owns
  the query (\<^verbatim>\<open>predicate\<close>) and the highlighted key (\<^verbatim>\<open>selected\<close>) and derives
  \<^verbatim>\<open>itemMap\<close> and \<^verbatim>\<open>filteredItems\<close> from them; \<^verbatim>\<open>useOutsideClick\<close> attaches a
  click listener to the document.

  Hook state becomes a record, a handler becomes a function from the record to the
  record, and a \<^verbatim>\<open>useMemo\<close> value becomes a function of its dependencies. An effect
  runs after the render that changed one of its dependencies and before the next event
  is handled, so an operation of the model is a handler followed by the effects it
  triggers.

  The code lower-cases strings with the built-in \<^verbatim>\<open>String.prototype.toLowerCase\<close>,
  whose result depends on the Unicode tables of the runtime. Every function below that
  filters takes the lower-casing function as its first argument \<open>lc\<close>, and every
  general property is proved for every such function, so it holds of the built-in
  whatever its tables are. Closed examples use the model \<open>toLowerCase\<close> defined below.
\<close>

subsection \<open>Data\<close>

text \<open>
  A JavaScript string is a sequence of UTF-16 code units, here natural numbers
  (below 65536 in a string of the program). \<open>js\<close> writes the code units of a literal
  of Basic Latin characters.
\<close>

type_synonym jstring = "nat list"

definition js :: "string \<Rightarrow> jstring" where
  "js s = map of_char s"

text \<open>
  \<^verbatim>\<open>CommandItem\<close> is declared in \<^verbatim>\<open>./commandItem\<close>; the code reads its fields
  \<^verbatim>\<open>key\<close> and \<^verbatim>\<open>name\<close>, both strings. JavaScript compares objects by identity
  (\<^verbatim>\<open>indexOf\<close> uses \<^verbatim>\<open>===\<close>), so an item also carries the identity of its
  object in \<open>ident\<close>: two items are the same object exactly when they are equal as
  records.
\<close>

record CommandItem =
  ident :: nat
  key :: jstring
  name :: jstring

text \<open>The only exception the code can raise: reading a property of \<^verbatim>\<open>undefined\<close>.\<close>

datatype error = TypeError

text \<open>The values of \<^verbatim>\<open>e.key\<close> that \<^verbatim>\<open>moveFocus\<close> distinguishes.\<close>

datatype key_name = ArrowDown | ArrowUp | OtherKey

text \<open>
  One record for the state of the mounted widget: the prop \<open>items\<close>, the state of
  \<^verbatim>\<open>Palette\<close> (\<open>opened\<close> for \<^verbatim>\<open>open\<close>), the style
  \<^verbatim>\<open>document.body.style.overflowY\<close>, whether \<^verbatim>\<open>Palette\<close> is mounted in its host,
  the state of \<^verbatim>\<open>CommandContainer\<close>, and the texts passed to \<^verbatim>\<open>alert\<close> so far.
\<close>

record palette =
  items :: "CommandItem list"
  opened :: bool
  overflowY :: string
  mounted :: bool
  predicate :: jstring
  selected :: "jstring option"
  alerts :: "jstring list"

subsection \<open>Strings and arrays of JavaScript\<close>

text \<open>
  A model of \<^verbatim>\<open>toLowerCase\<close>, exact on the strings made of code units up to U+00FF
  (Basic Latin and Latin-1) and of the Greek capitals U+0391 to U+03A9; any other code
  unit is kept as it is. The capitals A to Z and U+00C0 to U+00DE (without the sign
  U+00D7) move up by 32, and so do the Greek capitals, except the capital sigma U+03A3:
  it becomes the final sigma U+03C2 where the Unicode condition Final_Sigma holds, and
  the sigma U+03C3 elsewhere. Final_Sigma: going back from the sigma over
  case-ignorable characters one meets a cased letter, and going forward over
  case-ignorable characters one does not.
\<close>

definition cased :: "nat \<Rightarrow> bool" where
  "cased u =
     ((65 \<le> u \<and> u \<le> 90) \<or> (97 \<le> u \<and> u \<le> 122)
      \<or> u = 170 \<or> u = 181 \<or> u = 186
      \<or> (192 \<le> u \<and> u \<le> 255 \<and> u \<noteq> 215 \<and> u \<noteq> 247)
      \<or> (913 \<le> u \<and> u \<le> 937 \<and> u \<noteq> 930))"

definition case_ignorable :: "nat \<Rightarrow> bool" where
  "case_ignorable u =
     (u = 39 \<or> u = 46 \<or> u = 58 \<or> u = 94 \<or> u = 96
      \<or> u = 168 \<or> u = 173 \<or> u = 175 \<or> u = 180 \<or> u = 183 \<or> u = 184)"

text \<open>The first character that is not case-ignorable exists and is a cased letter.\<close>

fun next_is_cased :: "jstring \<Rightarrow> bool" where
  "next_is_cased [] = False"
| "next_is_cased (u # us) = (if case_ignorable u then next_is_cased us else cased u)"

text \<open>\<open>before\<close> holds the code units before the sigma, the nearest first.\<close>

definition final_sigma :: "jstring \<Rightarrow> jstring \<Rightarrow> bool" where
  "final_sigma before after = (next_is_cased before \<and> \<not> next_is_cased after)"

definition latin_capital :: "nat \<Rightarrow> bool" where
  "latin_capital u = ((65 \<le> u \<and> u \<le> 90) \<or> (192 \<le> u \<and> u \<le> 222 \<and> u \<noteq> 215))"

definition lower_latin :: "nat \<Rightarrow> nat" where
  "lower_latin u = (if latin_capital u then u + 32 else u)"

definition lower_unit :: "bool \<Rightarrow> nat \<Rightarrow> nat" where
  "lower_unit final u =
     (if u = 931 then (if final then 962 else 963)
      else if 913 \<le> u \<and> u \<le> 937 \<and> u \<noteq> 930 then u + 32
      else lower_latin u)"

fun lower_from :: "jstring \<Rightarrow> jstring \<Rightarrow> jstring" where
  "lower_from before [] = []"
| "lower_from before (u # us) =
     lower_unit (final_sigma before us) u # lower_from (u # before) us"

definition toLowerCase :: "jstring \<Rightarrow> jstring" where
  "toLowerCase s = lower_from [] s"

text \<open>
  \<^verbatim>\<open>s.includes(t)\<close>: \<open>t\<close> occurs in \<open>s\<close> at some position, as a run of adjacent
  code units.
\<close>

fun includes_str :: "jstring \<Rightarrow> jstring \<Rightarrow> bool" where
  "includes_str [] t = (t = [])"
| "includes_str (c # s) t = (prefix t (c # s) \<or> includes_str s t)"

text \<open>
  \<^verbatim>\<open>xs[i]\<close>: the element at index \<open>i\<close>, or \<^verbatim>\<open>undefined\<close> (None) outside the
  array.
\<close>

definition at_index :: "'a list \<Rightarrow> int \<Rightarrow> 'a option" where
  "at_index xs i = (if 0 \<le> i \<and> i < int (length xs) then Some (xs ! nat i) else None)"

text \<open>\<^verbatim>\<open>xs.indexOf(x)\<close>: the first index of \<open>x\<close>, or \<open>-1\<close>.\<close>

fun indexOf :: "'a list \<Rightarrow> 'a \<Rightarrow> int" where
  "indexOf [] x = -1"
| "indexOf (y # ys) x =
     (if y = x then 0 else (let i = indexOf ys x in if i < 0 then -1 else i + 1))"

text \<open>
  \<^verbatim>\<open>a % b\<close> of JavaScript on integers: the remainder has the sign of \<open>a\<close>.
\<close>

definition js_rem :: "int \<Rightarrow> int \<Rightarrow> int" where
  "js_rem a b = sgn a * (\<bar>a\<bar> mod \<bar>b\<bar>)"

subsection \<open>\<^verbatim>\<open>CommandContainer\<close>: derived values\<close>

text \<open>
  \<^verbatim>\<open>itemMap\<close> (lines 57 to 62): \<^verbatim>\<open>reduce\<close> from the empty object, each item stored
  under its key, a later item replacing an earlier one with the same key. A lookup
  \<^verbatim>\<open>itemMap[k]\<close> is \<^verbatim>\<open>undefined\<close> (None) for a key that no item has; the properties
  that an object inherits (such as \<^verbatim>\<open>constructor\<close>) are left out.
\<close>

definition itemMap :: "CommandItem list \<Rightarrow> (jstring \<rightharpoonup> CommandItem)" where
  "itemMap its = fold (\<lambda>item m. m(key item \<mapsto> item)) its Map.empty"

text \<open>
  \<^verbatim>\<open>filteredItems\<close> (lines 64 to 70), a function of \<^verbatim>\<open>[items, predicate]\<close>; \<open>lc\<close>
  is \<^verbatim>\<open>toLowerCase\<close>.
\<close>

definition filteredItems ::
  "(jstring \<Rightarrow> jstring) \<Rightarrow> CommandItem list \<Rightarrow> jstring \<Rightarrow> CommandItem list" where
  "filteredItems lc its p =
     (if length p \<le> 0 then its
      else filter (\<lambda>item. includes_str (lc (name item)) (lc p)) its)"

subsection \<open>The specification's words for the filter\<close>

text \<open>
  A reading of ``the name contains the query as a case-insensitive substring'' that
  does not lower-case anything. Two code units are the same letter when they are
  equal, or one is a capital of Basic Latin or Latin-1 and the other its small form.
  The name contains the query when some run of adjacent code units of the name has
  the length of the query and agrees with it letter by letter.
\<close>

definition same_letter :: "nat \<Rightarrow> nat \<Rightarrow> bool" where
  "same_letter c d =
     (c = d \<or> (latin_capital c \<and> d = c + 32) \<or> (latin_capital d \<and> c = d + 32))"

fun starts_with_ci :: "jstring \<Rightarrow> jstring \<Rightarrow> bool" where
  "starts_with_ci n [] = True"
| "starts_with_ci [] (c # q) = False"
| "starts_with_ci (d # n) (c # q) = (same_letter d c \<and> starts_with_ci n q)"

fun contains_ci :: "jstring \<Rightarrow> jstring \<Rightarrow> bool" where
  "contains_ci [] q = (q = [])"
| "contains_ci (d # n) q = (starts_with_ci (d # n) q \<or> contains_ci n q)"

subsection \<open>\<^verbatim>\<open>CommandContainer\<close>: state and handlers\<close>

text \<open>\<^verbatim>\<open>xs[0]?.key\<close>: the key of the first element, \<^verbatim>\<open>undefined\<close> on the empty array.\<close>

definition first_key :: "CommandItem list \<Rightarrow> jstring option" where
  "first_key xs = (case at_index xs 0 of None \<Rightarrow> None | Some x \<Rightarrow> Some (key x))"

text \<open>
  The effect of lines 95 to 97, \<^verbatim>\<open>setSelected(filteredItems[0]?.key)\<close>, with the
  dependencies \<^verbatim>\<open>[filteredItems, items]\<close>.
\<close>

definition recomputeSelection :: "(jstring \<Rightarrow> jstring) \<Rightarrow> palette \<Rightarrow> palette" where
  "recomputeSelection lc s =
     s\<lparr>selected := first_key (filteredItems lc (items s) (predicate s))\<rparr>"

text \<open>
  Mounting \<^verbatim>\<open>CommandContainer\<close>: the initial values of the two \<^verbatim>\<open>useState\<close> hooks
  (lines 54 and 55), then the effect, which runs after the first render.
\<close>

definition mountContainer :: "(jstring \<Rightarrow> jstring) \<Rightarrow> palette \<Rightarrow> palette" where
  "mountContainer lc s =
     recomputeSelection lc (s\<lparr>predicate := [], selected := first_key (items s)\<rparr>)"

text \<open>
  \<^verbatim>\<open>onInput\<close> (lines 175 to 177) calls \<^verbatim>\<open>setPredicate\<close>. A value equal to the
  state renders nothing. Any other value gives a new \<^verbatim>\<open>filteredItems\<close> array (the
  \<^verbatim>\<open>useMemo\<close> of line 64 depends on \<^verbatim>\<open>predicate\<close>), so the effect runs.
\<close>

definition setPredicate :: "(jstring \<Rightarrow> jstring) \<Rightarrow> jstring \<Rightarrow> palette \<Rightarrow> palette" where
  "setPredicate lc v s =
     (if v = predicate s then s else recomputeSelection lc (s\<lparr>predicate := v\<rparr>))"

text \<open>
  The host renders \<^verbatim>\<open>Palette\<close> with another \<^verbatim>\<open>items\<close> array while the container
  is mounted: the hooks keep their state, \<^verbatim>\<open>itemMap\<close> and \<^verbatim>\<open>filteredItems\<close> are
  computed again, and the effect runs because \<^verbatim>\<open>items\<close> is one of its dependencies.
\<close>

definition itemsChanged ::
  "(jstring \<Rightarrow> jstring) \<Rightarrow> CommandItem list \<Rightarrow> palette \<Rightarrow> palette" where
  "itemsChanged lc its s = recomputeSelection lc (s\<lparr>items := its\<rparr>)"

text \<open>
  \<^verbatim>\<open>acceptCommand\<close> (lines 75 to 81). \<^verbatim>\<open>command.name\<close> raises when
  \<^verbatim>\<open>itemMap[selected]\<close> is \<^verbatim>\<open>undefined\<close>.
\<close>

definition acceptCommand :: "palette \<Rightarrow> error + palette" where
  "acceptCommand s =
     (case selected s of
        None \<Rightarrow> Inr s
      | Some k \<Rightarrow>
          (case itemMap (items s) k of
             None \<Rightarrow> Inl TypeError
           | Some command \<Rightarrow> Inr (s\<lparr>alerts := alerts s @ [name command]\<rparr>)))"

text \<open>
  \<^verbatim>\<open>moveFocus\<close> (lines 99 to 122). \<^verbatim>\<open>indexOf\<close> of \<^verbatim>\<open>undefined\<close> is \<open>-1\<close>, since
  no element of the array is \<^verbatim>\<open>undefined\<close>. In the first case \<^verbatim>\<open>.key\<close> is read
  without \<^verbatim>\<open>?.\<close> and raises on \<^verbatim>\<open>undefined\<close>; in the second case \<^verbatim>\<open>?.\<close> and
  \<^verbatim>\<open>??\<close> pass \<^verbatim>\<open>undefined\<close> on.
\<close>

definition selectedIndex :: "(jstring \<Rightarrow> jstring) \<Rightarrow> palette \<Rightarrow> int" where
  "selectedIndex lc s =
     (case selected s of
        Some k \<Rightarrow>
          (case itemMap (items s) k of
             None \<Rightarrow> -1
           | Some item \<Rightarrow> indexOf (filteredItems lc (items s) (predicate s)) item)
      | None \<Rightarrow> 0)"

definition moveFocus ::
  "(jstring \<Rightarrow> jstring) \<Rightarrow> key_name \<Rightarrow> palette \<Rightarrow> error + palette" where
  "moveFocus lc e s =
     (let fi = filteredItems lc (items s) (predicate s) in
      if length fi \<le> 0 then Inr s
      else
        (case e of
           ArrowDown \<Rightarrow>
             (case at_index fi (js_rem (selectedIndex lc s + 1) (int (length fi))) of
                None \<Rightarrow> Inl TypeError
              | Some x \<Rightarrow> Inr (s\<lparr>selected := Some (key x)\<rparr>))
         | ArrowUp \<Rightarrow>
             Inr (s\<lparr>selected :=
               (case at_index fi (selectedIndex lc s - 1) of
                  Some x \<Rightarrow> Some (key x)
                | None \<Rightarrow>
                    (case at_index fi (int (length fi) - 1) of
                       Some y \<Rightarrow> Some (key y)
                     | None \<Rightarrow> None))\<rparr>)
         | OtherKey \<Rightarrow> Inr s))"

subsection \<open>\<^verbatim>\<open>Palette\<close>: visibility and the scroll lock\<close>

text \<open>The effect of lines 21 to 23, with the dependency \<^verbatim>\<open>[open]\<close>. It returns no cleanup.\<close>

definition scrollEffect :: "palette \<Rightarrow> palette" where
  "scrollEffect s = s\<lparr>overflowY := (if opened s then ''hidden'' else ''auto'')\<rparr>"

text \<open>
  Mounting \<^verbatim>\<open>Palette\<close> with the prop \<open>its\<close> in a document whose body has the style
  \<open>body\<close>: \<^verbatim>\<open>useState(false)\<close>, then the effect. \<^verbatim>\<open>Transition\<close> shows nothing while
  \<^verbatim>\<open>open\<close> is false, so the fields of the container only have a meaning once the
  palette is open.
\<close>

definition mountPalette :: "CommandItem list \<Rightarrow> string \<Rightarrow> palette" where
  "mountPalette its body =
     scrollEffect \<lparr>items = its, opened = False, overflowY = body, mounted = True,
       predicate = [], selected = None, alerts = []\<rparr>"

text \<open>
  The hotkey handler (lines 10 to 19), \<^verbatim>\<open>setOpen(v => !v)\<close>: the effect runs since
  \<^verbatim>\<open>open\<close> changed, and \<^verbatim>\<open>Transition\<close> mounts the container when the palette opens.
\<close>

definition hotkey :: "(jstring \<Rightarrow> jstring) \<Rightarrow> palette \<Rightarrow> palette" where
  "hotkey lc s =
     (let s' = s\<lparr>opened := \<not> opened s\<rparr>
      in scrollEffect (if opened s' then mountContainer lc s' else s'))"

text \<open>
  The \<^verbatim>\<open>close\<close> callback (lines 45 to 47), \<^verbatim>\<open>setOpen(false)\<close>; the effect runs when
  \<^verbatim>\<open>open\<close> changed.
\<close>

definition close :: "palette \<Rightarrow> palette" where
  "close s = (if opened s then scrollEffect (s\<lparr>opened := False\<rparr>) else s)"

text \<open>
  The host removes \<^verbatim>\<open>Palette\<close>. React runs the cleanups of the effects; the effect of
  lines 21 to 23 has none, so the body style stays as it is.
\<close>

definition unmountPalette :: "palette \<Rightarrow> palette" where
  "unmountPalette s = s\<lparr>mounted := False\<rparr>"

text \<open>
  The ways the palette is shown, hidden and removed. Escape (line 83) and a click
  outside (line 72) both call \<^verbatim>\<open>close\<close>; their listeners exist while the container
  is mounted. Nothing is handled once \<^verbatim>\<open>Palette\<close> is unmounted.
\<close>

datatype visibility_event = Hotkey | Escape | OutsideClick | Unmount

definition visibility_step ::
  "(jstring \<Rightarrow> jstring) \<Rightarrow> palette \<Rightarrow> visibility_event \<Rightarrow> palette" where
  "visibility_step lc s e =
     (if \<not> mounted s then s
      else
        (case e of
           Hotkey \<Rightarrow> hotkey lc s
         | Escape \<Rightarrow> (if opened s then close s else s)
         | OutsideClick \<Rightarrow> (if opened s then close s else s)
         | Unmount \<Rightarrow> unmountPalette s))"

definition visibility_run ::
  "(jstring \<Rightarrow> jstring) \<Rightarrow> palette \<Rightarrow> visibility_event list \<Rightarrow> palette" where
  "visibility_run lc s es = foldl (visibility_step lc) s es"

subsection \<open>Sequences of operations on the open palette\<close>

text \<open>
  The state in which the palette is open for the first time, and the four operations
  of the container: typing a query, an arrow key, the effect, and accepting.
\<close>

definition openState :: "(jstring \<Rightarrow> jstring) \<Rightarrow> CommandItem list \<Rightarrow> string \<Rightarrow> palette" where
  "openState lc its body = hotkey lc (mountPalette its body)"

datatype operation =
  SetQuery jstring | MoveSelection key_name | RecomputeSelection | AcceptSelection

fun perform :: "(jstring \<Rightarrow> jstring) \<Rightarrow> operation \<Rightarrow> palette \<Rightarrow> error + palette" where
  "perform lc (SetQuery v) s = Inr (setPredicate lc v s)"
| "perform lc (MoveSelection e) s = moveFocus lc e s"
| "perform lc RecomputeSelection s = Inr (recomputeSelection lc s)"
| "perform lc AcceptSelection s = acceptCommand s"

fun run :: "(jstring \<Rightarrow> jstring) \<Rightarrow> operation list \<Rightarrow> palette \<Rightarrow> error + palette" where
  "run lc [] s = Inr s"
| "run lc (x # xs) s = (case perform lc x s of Inl e \<Rightarrow> Inl e | Inr s' \<Rightarrow> run lc xs s')"

text \<open>The value of \<^verbatim>\<open>filteredItems\<close> in the render of a state.\<close>

definition filtered :: "(jstring \<Rightarrow> jstring) \<Rightarrow> palette \<Rightarrow> CommandItem list" where
  "filtered lc s = filteredItems lc (items s) (predicate s)"

text \<open>The selection, when present, is the key of an item of the filtered list.\<close>

definition selection_valid :: "(jstring \<Rightarrow> jstring) \<Rightarrow> palette \<Rightarrow> bool" where
  "selection_valid lc s =
     (case selected s of None \<Rightarrow> True | Some k \<Rightarrow> k \<in> key ` set (filtered lc s))"

subsection \<open>\<^verbatim>\<open>useOutsideClick\<close>\<close>

text \<open>
  The state of the hook (lines 216 to 240): \<^verbatim>\<open>container.current\<close>, which is
  \<^verbatim>\<open>null\<close> (None) or an element, given by the set of nodes that its \<^verbatim>\<open>contains\<close>
  accepts (the element and its descendants); the number of \<^verbatim>\<open>handler\<close> functions
  the hook has attached to the document; and the number of calls of \<^verbatim>\<open>callback\<close>.
\<close>

type_synonym node = nat

record outside_click =
  current :: "node set option"
  listeners :: nat
  calls :: nat

text \<open>\<^verbatim>\<open>handler\<close> (lines 222 to 230), for a click whose \<^verbatim>\<open>event.target\<close> is \<open>t\<close>.\<close>

definition handler :: "node \<Rightarrow> outside_click \<Rightarrow> outside_click" where
  "handler t h =
     (case current h of
        None \<Rightarrow> h
      | Some el \<Rightarrow> (if \<not> (t \<in> el) then h\<lparr>calls := calls h + 1\<rparr> else h))"

text \<open>The effect (line 232) and its cleanup (lines 234 to 236).\<close>

definition addListener :: "outside_click \<Rightarrow> outside_click" where
  "addListener h = h\<lparr>listeners := listeners h + 1\<rparr>"

definition removeListener :: "outside_click \<Rightarrow> outside_click" where
  "removeListener h = h\<lparr>listeners := listeners h - 1\<rparr>"

text \<open>
  Mounting: React stores the element \<open>el\<close> in the ref, then runs the effect. A
  render with another \<^verbatim>\<open>callback\<close> changes \<^verbatim>\<open>stableCallback\<close>, so the cleanup runs
  and then the effect. Unmounting runs the cleanup and clears the ref. A click on the
  document runs every attached handler.
\<close>

definition mountHook :: "node set \<Rightarrow> outside_click" where
  "mountHook el = addListener \<lparr>current = Some el, listeners = 0, calls = 0\<rparr>"

definition rerenderHook :: "outside_click \<Rightarrow> outside_click" where
  "rerenderHook h = addListener (removeListener h)"

definition unmountHook :: "outside_click \<Rightarrow> outside_click" where
  "unmountHook h = (removeListener h)\<lparr>current := None\<rparr>"

definition click :: "node \<Rightarrow> outside_click \<Rightarrow> outside_click" where
  "click t h = (handler t ^^ listeners h) h"

datatype hook_event = Rerender | Click node

definition hook_step :: "outside_click \<Rightarrow> hook_event \<Rightarrow> outside_click" where
  "hook_step h e = (case e of Rerender \<Rightarrow> rerenderHook h | Click t \<Rightarrow> click t h)"

definition hook_run :: "node set \<Rightarrow> hook_event list \<Rightarrow> outside_click" where
  "hook_run el es = foldl hook_step (mountHook el) es"

subsection \<open>The specification's words for the arrow keys\<close>

text \<open>
  The specification describes \<^verbatim>\<open>moveSelection\<close> with the index of the selection in
  the filtered list, an absent or not found selection counting as index 0. These two
  definitions follow those words, to be compared with \<open>moveFocus\<close>.
\<close>

datatype direction = Next | Previous

definition spec_index :: "CommandItem list \<Rightarrow> jstring option \<Rightarrow> nat" where
  "spec_index fi sel =
     (case sel of
        None \<Rightarrow> 0
      | Some k \<Rightarrow> (if k \<in> set (map key fi) then nat (indexOf (map key fi) k) else 0))"

definition spec_moveSelection ::
  "(jstring \<Rightarrow> jstring) \<Rightarrow> direction \<Rightarrow> palette \<Rightarrow> palette" where
  "spec_moveSelection lc d s =
     (let fi = filtered lc s; n = length fi in
      if fi = [] then s
      else
        (let i = spec_index fi (selected s) in
         case d of
           Next \<Rightarrow> s\<lparr>selected := Some (key (fi ! ((i + 1) mod n)))\<rparr>
         | Previous \<Rightarrow> s\<lparr>selected := Some (key (if i = 0 then last fi else fi ! (i - 1)))\<rparr>))"

text \<open>
  The index that \<open>moveFocus\<close> works with, read off the keys of the filtered list: 0
  for an absent selection, the position of the key when it is there, and \<open>-1\<close> for a
  key that is not there.
\<close>

definition key_index :: "(jstring \<Rightarrow> jstring) \<Rightarrow> palette \<Rightarrow> int" where
  "key_index lc s =
     (case selected s of None \<Rightarrow> 0 | Some k \<Rightarrow> indexOf (map key (filtered lc s)) k)"

subsection \<open>Examples\<close>

text \<open>The three items of the specification's scenario, and the state after the query \<open>open\<close>.\<close>

definition example_items :: "CommandItem list" where
  "example_items =
     [\<lparr>ident = 0, key = js ''a'', name = js ''Open File''\<rparr>,
      \<lparr>ident = 1, key = js ''b'', name = js ''Open Folder''\<rparr>,
      \<lparr>ident = 2, key = js ''c'', name = js ''Save''\<rparr>]"

definition example_open :: palette where
  "example_open =
     \<lparr>items = example_items, opened = True, overflowY = ''hidden'', mounted = True,
      predicate = js ''open'', selected = Some (js ''a''), alerts = []\<rparr>"

text \<open>
  An item whose name is the two Greek capitals alpha and sigma, U+0391 U+03A3. The
  query of the example with it is the capital sigma alone, U+03A3.
\<close>

definition sigma_item :: CommandItem where
  "sigma_item = \<lparr>ident = 0, key = js ''s'', name = [913, 931]\<rparr>"

section \<open>Properties\<close>

subsection \<open>Strings, arrays and the key map\<close>

lemma js_eq_iff [simp]: "js s = js t \<longleftrightarrow> s = t"
  by (simp add: js_def inj_on_def)

lemma js_Nil_iff [simp]: "js s = [] \<longleftrightarrow> s = []"
  by (simp add: js_def)

lemma includes_str_sublist: "includes_str s t = sublist t s"
  by (induction s) (auto simp: sublist_Cons_right)

lemma set_filteredItems: "set (filteredItems lc its q) \<subseteq> set its"
  by (auto simp: filteredItems_def)

lemma fold_itemMap_Some:
  "fold (\<lambda>item m. m(key item \<mapsto> item)) its m0 k = Some c \<Longrightarrow>
     (c \<in> set its \<and> key c = k) \<or> m0 k = Some c"
  by (induction its arbitrary: m0) (fastforce split: if_splits)+

lemma itemMap_Some: "itemMap its k = Some c \<Longrightarrow> c \<in> set its \<and> key c = k"
  using fold_itemMap_Some [of its Map.empty k c] by (simp add: itemMap_def)

lemma fold_itemMap_dom:
  "dom (fold (\<lambda>item m. m(key item \<mapsto> item)) its m0) = dom m0 \<union> key ` set its"
  by (induction its arbitrary: m0) auto

lemma itemMap_dom: "dom (itemMap its) = key ` set its"
  by (simp add: itemMap_def fold_itemMap_dom)

lemma itemMap_distinct:
  assumes "distinct (map key its)" and "c \<in> set its"
  shows "itemMap its (key c) = Some c"
proof -
  have "key c \<in> dom (itemMap its)"
    using assms(2) by (simp add: itemMap_dom)
  then obtain d where d: "itemMap its (key c) = Some d"
    by blast
  then have "d \<in> set its" "key d = key c"
    using itemMap_Some by blast+
  with assms have "d = c"
    by (meson distinct_map inj_onD)
  with d show ?thesis by simp
qed

lemma indexOf_bounds: "-1 \<le> indexOf xs x \<and> indexOf xs x < int (length xs)"
  by (induction xs) (auto simp: Let_def)

lemma indexOf_notin: "x \<notin> set xs \<Longrightarrow> indexOf xs x = -1"
  by (induction xs) (auto simp: Let_def)

lemma indexOf_in: "x \<in> set xs \<Longrightarrow> 0 \<le> indexOf xs x \<and> xs ! nat (indexOf xs x) = x"
  by (induction xs) (auto simp: Let_def nat_add_distrib)

lemma indexOf_map:
  "distinct (map f xs) \<Longrightarrow> x \<in> set xs \<Longrightarrow> indexOf (map f xs) (f x) = indexOf xs x"
  by (induction xs) (auto simp: Let_def)

lemma first_key_Some: "first_key xs = Some k \<Longrightarrow> k \<in> key ` set xs"
  by (cases xs) (auto simp: first_key_def at_index_def)

lemma first_key_Nil: "first_key xs = None \<longleftrightarrow> xs = []"
  by (cases xs) (auto simp: first_key_def at_index_def)

lemma first_key_case: "first_key xs = (case xs of [] \<Rightarrow> None | x # _ \<Rightarrow> Some (key x))"
  by (cases xs) (auto simp: first_key_def at_index_def)

subsection \<open>The arrow keys and the effect\<close>

lemma js_rem_nonneg: "0 \<le> a \<Longrightarrow> 0 < b \<Longrightarrow> js_rem a b = a mod b"
  by (cases "a = 0") (simp_all add: js_rem_def)

lemma at_index_Some: "0 \<le> i \<Longrightarrow> i < int (length xs) \<Longrightarrow> at_index xs i = Some (xs ! nat i)"
  by (simp add: at_index_def)

lemma at_index_in: "at_index xs i = Some x \<Longrightarrow> x \<in> set xs"
  by (auto simp: at_index_def split: if_splits)

lemma selectedIndex_bounds:
  "filtered lc s \<noteq> [] \<Longrightarrow> -1 \<le> selectedIndex lc s \<and> selectedIndex lc s < int (length (filtered lc s))"
  using indexOf_bounds [of "filtered lc s"]
  by (auto simp: selectedIndex_def filtered_def split: option.splits)

lemma filtered_recomputeSelection [simp]: "filtered lc (recomputeSelection lc s) = filtered lc s"
  by (simp add: filtered_def recomputeSelection_def)

lemma selected_recomputeSelection: "selected (recomputeSelection lc s) = first_key (filtered lc s)"
  by (simp add: filtered_def recomputeSelection_def)

lemma valid_recomputeSelection: "selection_valid lc (recomputeSelection lc s)"
  by (auto simp: selection_valid_def selected_recomputeSelection
      split: option.splits dest: first_key_Some)

lemma valid_setPredicate: "selection_valid lc s \<Longrightarrow> selection_valid lc (setPredicate lc v s)"
  by (simp add: setPredicate_def valid_recomputeSelection)

lemma moveFocus_down:
  assumes "filtered lc s \<noteq> []"
  shows "moveFocus lc ArrowDown s =
    Inr (s\<lparr>selected := Some (key (filtered lc s !
       nat ((selectedIndex lc s + 1) mod int (length (filtered lc s)))))\<rparr>)"
proof -
  let ?n = "int (length (filtered lc s))"
  have n: "0 < ?n" using assms by simp
  have b: "0 \<le> selectedIndex lc s + 1"
    using selectedIndex_bounds [OF assms] by simp
  have r: "js_rem (selectedIndex lc s + 1) ?n = (selectedIndex lc s + 1) mod ?n"
    using b n by (rule js_rem_nonneg)
  have "at_index (filtered lc s) ((selectedIndex lc s + 1) mod ?n)
      = Some (filtered lc s ! nat ((selectedIndex lc s + 1) mod ?n))"
    using n by (intro at_index_Some) simp_all
  then show ?thesis
    using assms r by (simp add: moveFocus_def filtered_def Let_def)
qed

lemma moveFocus_up:
  assumes "filtered lc s \<noteq> []"
  shows "moveFocus lc ArrowUp s =
    Inr (s\<lparr>selected := Some (key (if 1 \<le> selectedIndex lc s
       then filtered lc s ! nat (selectedIndex lc s - 1) else last (filtered lc s)))\<rparr>)"
proof -
  let ?n = "int (length (filtered lc s))"
  have n: "0 < ?n" using assms by simp
  have b: "-1 \<le> selectedIndex lc s" "selectedIndex lc s < ?n"
    using selectedIndex_bounds [OF assms] by simp_all
  have "nat (?n - 1) = length (filtered lc s) - 1"
    by simp
  then have l: "at_index (filtered lc s) (?n - 1) = Some (last (filtered lc s))"
    using assms by (simp add: at_index_def last_conv_nth del: One_nat_def)
  show ?thesis
  proof (cases "1 \<le> selectedIndex lc s")
    case True
    then have "at_index (filtered lc s) (selectedIndex lc s - 1)
        = Some (filtered lc s ! nat (selectedIndex lc s - 1))"
      using b by (intro at_index_Some) simp_all
    then show ?thesis
      using assms True by (simp add: moveFocus_def filtered_def Let_def)
  next
    case False
    then have "at_index (filtered lc s) (selectedIndex lc s - 1) = None"
      by (simp add: at_index_def)
    then show ?thesis
      using assms False l by (simp add: moveFocus_def filtered_def Let_def)
  qed
qed

lemma moveFocus_empty: "filtered lc s = [] \<Longrightarrow> moveFocus lc e s = Inr s"
  by (simp add: moveFocus_def filtered_def)

lemma moveFocus_other: "moveFocus lc OtherKey s = Inr s"
  by (simp add: moveFocus_def Let_def)

lemma moveFocus_result:
  "\<exists>sel. moveFocus lc e s = Inr (s\<lparr>selected := sel\<rparr>)
     \<and> (selection_valid lc s \<longrightarrow> selection_valid lc (s\<lparr>selected := sel\<rparr>))"
proof (cases "filtered lc s = []")
  case True
  then have "moveFocus lc e s = Inr (s\<lparr>selected := selected s\<rparr>)"
    by (simp add: moveFocus_empty)
  then show ?thesis by (intro exI [of _ "selected s"]) simp
next
  case False
  then have n: "0 < int (length (filtered lc s))" by simp
  show ?thesis
  proof (cases e)
    case ArrowDown
    have "nat ((selectedIndex lc s + 1) mod int (length (filtered lc s))) < length (filtered lc s)"
      using n by (simp add: nat_less_iff)
    then have "filtered lc s ! nat ((selectedIndex lc s + 1) mod int (length (filtered lc s)))
        \<in> set (filtered lc s)"
      by (rule nth_mem)
    then show ?thesis
      unfolding ArrowDown moveFocus_down [OF False]
      by (auto simp: selection_valid_def filtered_def)
  next
    case ArrowUp
    have "(if 1 \<le> selectedIndex lc s then filtered lc s ! nat (selectedIndex lc s - 1)
        else last (filtered lc s)) \<in> set (filtered lc s)"
      using selectedIndex_bounds [OF False] False by (auto intro!: nth_mem)
    then show ?thesis
      unfolding ArrowUp moveFocus_up [OF False]
      by (auto simp: selection_valid_def filtered_def)
  next
    case OtherKey
    have "moveFocus lc OtherKey s = Inr (s\<lparr>selected := selected s\<rparr>)"
      by (simp add: moveFocus_other)
    then show ?thesis unfolding OtherKey by (intro exI [of _ "selected s"]) simp
  qed
qed

subsection \<open>Accepting, and sequences of operations\<close>

lemma selection_valid_items:
  "selection_valid lc s \<Longrightarrow> selected s = Some k \<Longrightarrow> k \<in> key ` set (items s)"
  using set_filteredItems [of lc "items s" "predicate s"]
  by (auto simp: selection_valid_def filtered_def)

lemma acceptCommand_None: "selected s = None \<Longrightarrow> acceptCommand s = Inr s"
  by (simp add: acceptCommand_def)

lemma acceptCommand_Some:
  assumes "selection_valid lc s" and "selected s = Some k"
  shows "\<exists>c. c \<in> set (items s) \<and> key c = k \<and> itemMap (items s) k = Some c
    \<and> acceptCommand s = Inr (s\<lparr>alerts := alerts s @ [name c]\<rparr>)"
proof -
  have "k \<in> dom (itemMap (items s))"
    using selection_valid_items [OF assms] by (simp add: itemMap_dom)
  then obtain c where c: "itemMap (items s) k = Some c"
    by blast
  then have "c \<in> set (items s) \<and> key c = k"
    by (rule itemMap_Some)
  moreover have "acceptCommand s = Inr (s\<lparr>alerts := alerts s @ [name c]\<rparr>)"
    using assms(2) c by (simp add: acceptCommand_def)
  ultimately show ?thesis using c by blast
qed

lemma selection_valid_alerts [simp]:
  "selection_valid lc (s\<lparr>alerts := a\<rparr>) = selection_valid lc s"
  by (simp add: selection_valid_def filtered_def split: option.splits)

lemma acceptCommand_keeps:
  assumes "selection_valid lc s"
  shows "\<exists>a. acceptCommand s = Inr (s\<lparr>alerts := a\<rparr>)"
proof (cases "selected s")
  case None
  then have "acceptCommand s = Inr (s\<lparr>alerts := alerts s\<rparr>)"
    by (simp add: acceptCommand_None)
  then show ?thesis ..
next
  case (Some k)
  from acceptCommand_Some [OF assms Some] show ?thesis by blast
qed

lemma perform_keeps:
  assumes "selection_valid lc s"
  shows "\<exists>s'. perform lc x s = Inr s' \<and> selection_valid lc s'
    \<and> items s' = items s \<and> opened s' = opened s"
proof (cases x)
  case (SetQuery v)
  then show ?thesis
    using assms valid_setPredicate [OF assms, of v]
    by (simp add: setPredicate_def recomputeSelection_def)
next
  case (MoveSelection e)
  from moveFocus_result [of lc e s] assms MoveSelection show ?thesis by auto
next
  case RecomputeSelection
  then show ?thesis
    using valid_recomputeSelection [of lc s] by (simp add: recomputeSelection_def)
next
  case AcceptSelection
  from acceptCommand_keeps [OF assms] AcceptSelection assms show ?thesis by auto
qed

lemma run_keeps:
  "selection_valid lc s \<Longrightarrow>
     \<exists>s'. run lc xs s = Inr s' \<and> selection_valid lc s' \<and> items s' = items s \<and> opened s' = opened s"
proof (induction xs arbitrary: s)
  case Nil
  then show ?case by simp
next
  case (Cons x xs)
  from perform_keeps [OF Cons.prems, of x] obtain s1 where
    s1: "perform lc x s = Inr s1" "selection_valid lc s1" "items s1 = items s" "opened s1 = opened s"
    by blast
  from Cons.IH [OF s1(2)] s1 show ?case by auto
qed

lemma openState_fields:
  "items (openState lc its body) = its" "opened (openState lc its body)"
  "predicate (openState lc its body) = []" "selected (openState lc its body) = first_key its"
  "overflowY (openState lc its body) = ''hidden''" "mounted (openState lc its body)"
  by (simp_all add: openState_def hotkey_def mountPalette_def scrollEffect_def
      mountContainer_def recomputeSelection_def filteredItems_def Let_def)

lemma openState_valid: "selection_valid lc (openState lc its body)"
  by (auto simp: selection_valid_def openState_fields filtered_def filteredItems_def
      split: option.splits dest: first_key_Some)

lemma run_openState:
  "\<exists>s. run lc xs (openState lc its body) = Inr s \<and> selection_valid lc s \<and> items s = its \<and> opened s"
  using run_keeps [OF openState_valid [of lc its body], of xs] by (simp add: openState_fields)

lemma distinct_keys_filtered:
  "distinct (map key (items s)) \<Longrightarrow> distinct (map key (filtered lc s))"
  by (simp add: filtered_def filteredItems_def distinct_map_filter)

lemma selectedIndex_key_index:
  assumes d: "distinct (map key (items s))"
  shows "selectedIndex lc s = key_index lc s"
proof (cases "selected s")
  case None
  then show ?thesis by (simp add: selectedIndex_def key_index_def)
next
  case (Some k)
  show ?thesis
  proof (cases "itemMap (items s) k")
    case None
    then have "k \<notin> key ` set (items s)"
      using itemMap_dom [of "items s"] by blast
    then have "k \<notin> set (map key (filtered lc s))"
      using set_filteredItems [of lc "items s" "predicate s"] by (auto simp: filtered_def)
    then have "indexOf (map key (filtered lc s)) k = -1"
      by (rule indexOf_notin)
    then show ?thesis
      using Some None by (simp add: selectedIndex_def key_index_def)
  next
    case (Some c)
    then have c: "c \<in> set (items s)" "key c = k"
      using itemMap_Some by blast+
    have "indexOf (filtered lc s) c = indexOf (map key (filtered lc s)) k"
    proof (cases "c \<in> set (filtered lc s)")
      case True
      then show ?thesis
        using indexOf_map [OF distinct_keys_filtered [OF d] True] c(2) by simp
    next
      case False
      have "k \<notin> set (map key (filtered lc s))"
      proof
        assume "k \<in> set (map key (filtered lc s))"
        then obtain x where x: "x \<in> set (filtered lc s)" "key x = k"
          by auto
        then have "x \<in> set (items s)"
          using set_filteredItems [of lc "items s" "predicate s"] by (auto simp: filtered_def)
        with d c x(2) have "x = c"
          by (metis distinct_map inj_onD)
        with x(1) False show False by simp
      qed
      then show ?thesis
        using False by (simp add: indexOf_notin)
    qed
    then show ?thesis
      using \<open>selected s = Some k\<close> Some by (simp add: selectedIndex_def key_index_def filtered_def)
  qed
qed

subsection \<open>The examples, evaluated\<close>

lemma example_keys: "map key example_items = [js ''a'', js ''b'', js ''c'']"
  by (simp add: example_items_def)

lemma filtered_example_open:
  "filtered toLowerCase (example_open\<lparr>selected := sel\<rparr>) =
     [\<lparr>ident = 0, key = js ''a'', name = js ''Open File''\<rparr>,
      \<lparr>ident = 1, key = js ''b'', name = js ''Open Folder''\<rparr>]"
proof -
  have "filteredItems toLowerCase example_items (js ''open'') =
     [\<lparr>ident = 0, key = js ''a'', name = js ''Open File''\<rparr>,
      \<lparr>ident = 1, key = js ''b'', name = js ''Open Folder''\<rparr>]"
    by code_simp
  then show ?thesis by (simp add: filtered_def example_open_def)
qed

lemma run_example_open:
  "run toLowerCase [SetQuery (js ''open'')] (openState toLowerCase example_items []) = Inr example_open"
  by code_simp

lemma run_example_next:
  "run toLowerCase [SetQuery (js ''open''), MoveSelection ArrowDown] (openState toLowerCase example_items [])
     = Inr (example_open\<lparr>selected := Some (js ''b'')\<rparr>)"
  by code_simp

lemma run_example_save:
  "run toLowerCase [SetQuery (js ''open''), MoveSelection ArrowDown, SetQuery (js ''save'')]
       (openState toLowerCase example_items [])
     = Inr (example_open\<lparr>predicate := js ''save'', selected := Some (js ''c'')\<rparr>)"
  by code_simp

lemma run_example_nothing:
  "run toLowerCase [SetQuery (js ''xyz'')] (openState toLowerCase example_items [])
     = Inr (example_open\<lparr>predicate := js ''xyz'', selected := None\<rparr>)"
  by code_simp

subsection \<open>The filter\<close>

text \<open>The recursive reading of containment is the existence of a matching run.\<close>

lemma same_letter_lower: "same_letter c d \<longleftrightarrow> lower_latin c = lower_latin d"
  by (auto simp: same_letter_def lower_latin_def latin_capital_def)

lemma starts_with_ci_iff:
  "starts_with_ci n q \<longleftrightarrow> (\<exists>r suf. n = r @ suf \<and> list_all2 same_letter r q)"
proof (induction n q rule: starts_with_ci.induct)
  case (1 n)
  then show ?case by simp
next
  case (2 c q)
  then show ?case by simp
next
  case (3 d n c q)
  show ?case
  proof
    assume "starts_with_ci (d # n) (c # q)"
    then obtain r suf where "same_letter d c" "n = r @ suf" "list_all2 same_letter r q"
      using 3 by auto
    then have "d # n = (d # r) @ suf \<and> list_all2 same_letter (d # r) (c # q)"
      by simp
    then show "\<exists>r suf. d # n = r @ suf \<and> list_all2 same_letter r (c # q)"
      by blast
  next
    assume "\<exists>r suf. d # n = r @ suf \<and> list_all2 same_letter r (c # q)"
    then obtain r suf where r: "d # n = r @ suf" "list_all2 same_letter r (c # q)"
      by blast
    then obtain r' where "r = d # r'" "same_letter d c" "list_all2 same_letter r' q"
      "n = r' @ suf"
      by (cases r) auto
    then show "starts_with_ci (d # n) (c # q)"
      using 3 by auto
  qed
qed

lemma contains_ci_iff:
  "contains_ci n q \<longleftrightarrow> (\<exists>pre r suf. n = pre @ r @ suf \<and> list_all2 same_letter r q)"
proof (induction n)
  case Nil
  then show ?case by auto
next
  case (Cons d n)
  show ?case
  proof
    assume "contains_ci (d # n) q"
    then consider "starts_with_ci (d # n) q" | "contains_ci n q"
      by auto
    then show "\<exists>pre r suf. d # n = pre @ r @ suf \<and> list_all2 same_letter r q"
    proof cases
      case 1
      then obtain r suf where "d # n = [] @ r @ suf \<and> list_all2 same_letter r q"
        by (auto simp: starts_with_ci_iff)
      then show ?thesis by blast
    next
      case 2
      then obtain pre r suf where "n = pre @ r @ suf" "list_all2 same_letter r q"
        using Cons by blast
      then have "d # n = (d # pre) @ r @ suf \<and> list_all2 same_letter r q"
        by simp
      then show ?thesis by blast
    qed
  next
    assume "\<exists>pre r suf. d # n = pre @ r @ suf \<and> list_all2 same_letter r q"
    then obtain pre r suf where p: "d # n = pre @ r @ suf" "list_all2 same_letter r q"
      by blast
    show "contains_ci (d # n) q"
    proof (cases pre)
      case Nil
      then have "starts_with_ci (d # n) q"
        using p by (auto simp: starts_with_ci_iff)
      then show ?thesis by simp
    next
      case (Cons a pre')
      then have "n = pre' @ r @ suf"
        using p by simp
      then have "contains_ci n q"
        using p(2) Cons.IH by blast
      then show ?thesis by simp
    qed
  qed
qed

text \<open>
  Where lower-casing only moves the Latin capitals, containment of the lower-cased
  strings is containment up to case.
\<close>

lemma starts_with_ci_prefix:
  "starts_with_ci n q \<longleftrightarrow> prefix (map lower_latin q) (map lower_latin n)"
  by (induction n q rule: starts_with_ci.induct) (auto simp: same_letter_lower)

lemma contains_ci_sublist:
  "contains_ci n q \<longleftrightarrow> sublist (map lower_latin q) (map lower_latin n)"
  by (induction n) (auto simp: starts_with_ci_prefix sublist_Cons_right)

text \<open>On code units up to U+00FF the model of \<open>toLowerCase\<close> only moves the Latin capitals.\<close>

lemma lower_from_latin:
  "\<forall>u \<in> set s. u < 256 \<Longrightarrow> lower_from before s = map lower_latin s"
  by (induction s arbitrary: before) (auto simp: lower_unit_def)

lemma toLowerCase_latin: "\<forall>u \<in> set s. u < 256 \<Longrightarrow> toLowerCase s = map lower_latin s"
  by (simp add: toLowerCase_def lower_from_latin)

lemma js_latin: "\<forall>u \<in> set (js s). u < 256"
  by (auto simp: js_def)

text \<open>Two queries with the same lower-cased form give the same filtered list.\<close>

lemma filteredItems_ignores_case:
  assumes "lc q = lc q'" and "q = [] \<longleftrightarrow> q' = []"
  shows "filteredItems lc its q = filteredItems lc its q'"
  using assms by (simp add: filteredItems_def)

lemma filteredItems_ABC_abc:
  "filteredItems toLowerCase its (js ''ABC'') = filteredItems toLowerCase its (js ''abc'')"
proof -
  have "toLowerCase (js ''ABC'') = toLowerCase (js ''abc'')"
    by code_simp
  then show ?thesis
    by (rule filteredItems_ignores_case) (simp add: js_def)
qed

text \<open>
  C1, as stated, fails where \<^verbatim>\<open>toLowerCase\<close> does not act letter by letter. The name
  of the item is alpha sigma in capitals, U+0391 U+03A3, and the query is the capital
  sigma U+03A3, which the name contains as it stands. \<^verbatim>\<open>toLowerCase\<close> turns the
  sigma at the end of the name into the final sigma U+03C2 and the sigma of the query
  into U+03C3, so \<^verbatim>\<open>includes\<close> is false and the item is filtered out: an item
  of the list whose name contains the query is not in the filtered list.
\<close>

theorem filteredItems_final_sigma_counterexample:
  "toLowerCase (name sigma_item) = [945, 962]
   \<and> toLowerCase [931] = [963]
   \<and> filteredItems toLowerCase [sigma_item] [931] = []
   \<and> [931] \<noteq> ([] :: jstring)
   \<and> contains_ci (name sigma_item) [931]
   \<and> sigma_item \<in> set [sigma_item]
   \<and> sigma_item \<notin> set (filteredItems toLowerCase [sigma_item] [931])"
proof -
  have n: "toLowerCase (name sigma_item) = [945, 962]"
    by code_simp
  have q: "toLowerCase [931] = [963]"
    by code_simp
  have f: "filteredItems toLowerCase [sigma_item] [931] = []"
    by (simp add: filteredItems_def n q)
  have c: "contains_ci (name sigma_item) [931]"
    by (simp add: sigma_item_def same_letter_def)
  from n q f c show ?thesis by simp
qed

text \<open>
  C1, amended. For every lower-casing function, every item list and every query:
  \<open>filteredItems\<close> is the item list itself when the query is empty, and otherwise
  exactly the items whose lower-cased name contains the lower-cased query as a run of
  adjacent code units, in the order of the item list; in both cases it is a
  subsequence of the item list. Whenever lower-casing changes nothing in the query and
  in the names but the capitals of Basic Latin and Latin-1, as \<^verbatim>\<open>toLowerCase\<close> does
  on every string of code units up to U+00FF, these are exactly the items whose name
  contains the query as a case-insensitive substring.
\<close>

theorem filteredItems_lower_cased_substring:
  "filteredItems lc its q =
     (if q = [] then its else filter (\<lambda>item. sublist (lc q) (lc (name item))) its)
   \<and> subseq (filteredItems lc its q) its
   \<and> (lc q = map lower_latin q
        \<and> (\<forall>item \<in> set its. lc (name item) = map lower_latin (name item)) \<longrightarrow>
      filteredItems lc its q =
        (if q = [] then its else filter (\<lambda>item. contains_ci (name item) q) its))"
proof (intro conjI impI)
  show "filteredItems lc its q =
      (if q = [] then its else filter (\<lambda>item. sublist (lc q) (lc (name item))) its)"
    by (simp add: filteredItems_def includes_str_sublist)
next
  show "subseq (filteredItems lc its q) its"
    by (simp add: filteredItems_def)
next
  assume h: "lc q = map lower_latin q
    \<and> (\<forall>item \<in> set its. lc (name item) = map lower_latin (name item))"
  have "filter (\<lambda>item. includes_str (lc (name item)) (lc q)) its
      = filter (\<lambda>item. contains_ci (name item) q) its"
  proof (rule filter_cong [OF refl])
    fix item
    assume "item \<in> set its"
    then have "lc (name item) = map lower_latin (name item)"
      using h by blast
    then show "includes_str (lc (name item)) (lc q) = contains_ci (name item) q"
      using h by (simp add: includes_str_sublist contains_ci_sublist)
  qed
  then show "filteredItems lc its q =
      (if q = [] then its else filter (\<lambda>item. contains_ci (name item) q) its)"
    by (simp add: filteredItems_def)
qed

theorem filteredItems_lower_cased_substring_witness:
  "toLowerCase (js ''OPEN'') = map lower_latin (js ''OPEN'')
   \<and> contains_ci (js ''Open File'') (js ''OPEN'')
   \<and> contains_ci (js ''Open Folder'') (js ''OPEN'')
   \<and> \<not> contains_ci (js ''Save'') (js ''OPEN'')
   \<and> filteredItems toLowerCase example_items (js ''OPEN'') =
       [\<lparr>ident = 0, key = js ''a'', name = js ''Open File''\<rparr>,
        \<lparr>ident = 1, key = js ''b'', name = js ''Open Folder''\<rparr>]"
proof -
  have q: "toLowerCase (js ''OPEN'') = map lower_latin (js ''OPEN'')"
    by (rule toLowerCase_latin [OF js_latin])
  have n: "\<forall>item \<in> set example_items.
      toLowerCase (name item) = map lower_latin (name item)"
    by (auto simp: example_items_def intro: toLowerCase_latin [OF js_latin])
  have c: "contains_ci (js ''Open File'') (js ''OPEN'')"
    "contains_ci (js ''Open Folder'') (js ''OPEN'')"
    "\<not> contains_ci (js ''Save'') (js ''OPEN'')"
    by code_simp+
  have "filteredItems toLowerCase example_items (js ''OPEN'') =
      (if js ''OPEN'' = [] then example_items
       else filter (\<lambda>item. contains_ci (name item) (js ''OPEN'')) example_items)"
    using filteredItems_lower_cased_substring [of toLowerCase example_items "js ''OPEN''"]
      q n
    by blast
  then have "filteredItems toLowerCase example_items (js ''OPEN'') =
       [\<lparr>ident = 0, key = js ''a'', name = js ''Open File''\<rparr>,
        \<lparr>ident = 1, key = js ''b'', name = js ''Open Folder''\<rparr>]"
    using c by (simp add: example_items_def)
  with q c show ?thesis by blast
qed

subsection \<open>Moving the selection\<close>

text \<open>
  C2, as the specification words it, fails on a selection that is present but not in
  the filtered list. With the items of the example, the query \<open>open\<close> and the
  selection \<open>c\<close> (the key of \<open>Save\<close>, which the query does not match),
  \<^verbatim>\<open>indexOf\<close> gives \<open>-1\<close>, so the down arrow selects index 0, the key \<open>a\<close>; counting
  the selection as index 0 would select index 1, the key \<open>b\<close>.
\<close>

theorem moveFocus_stale_selection_counterexample:
  "moveFocus toLowerCase ArrowDown (example_open\<lparr>selected := Some (js ''c'')\<rparr>)
     = Inr (example_open\<lparr>selected := Some (js ''a'')\<rparr>)
   \<and> spec_moveSelection toLowerCase Next (example_open\<lparr>selected := Some (js ''c'')\<rparr>)
     = example_open\<lparr>selected := Some (js ''b'')\<rparr>
   \<and> moveFocus toLowerCase ArrowDown (example_open\<lparr>selected := Some (js ''c'')\<rparr>)
     \<noteq> Inr (spec_moveSelection toLowerCase Next (example_open\<lparr>selected := Some (js ''c'')\<rparr>))"
proof -
  have m: "moveFocus toLowerCase ArrowDown (example_open\<lparr>selected := Some (js ''c'')\<rparr>)
     = Inr (example_open\<lparr>selected := Some (js ''a'')\<rparr>)"
    by code_simp
  have sp: "spec_moveSelection toLowerCase Next (example_open\<lparr>selected := Some (js ''c'')\<rparr>)
     = example_open\<lparr>selected := Some (js ''b'')\<rparr>"
    by code_simp
  have "example_open\<lparr>selected := Some (js ''a'')\<rparr> \<noteq> example_open\<lparr>selected := Some (js ''b'')\<rparr>"
    by (simp add: example_open_def)
  with m sp show ?thesis by simp
qed

text \<open>
  C2, amended. Let the items have unique keys. \<open>moveFocus\<close> changes nothing when the
  filtered list is empty. Otherwise, with the index 0 for an absent selection, the
  position of the selected key among the keys of the filtered list when it is there,
  and \<open>-1\<close> when it is not: the down arrow selects the key at \<open>(index + 1) mod n\<close>,
  and the up arrow selects the key at \<open>index - 1\<close> when the index is at least 1 and
  the key of the last element otherwise. No arrow key raises.
\<close>

theorem moveFocus_by_key_index:
  assumes "distinct (map key (items s))"
  shows "(filtered lc s = [] \<longrightarrow> moveFocus lc e s = Inr s)
    \<and> (filtered lc s \<noteq> [] \<longrightarrow>
         moveFocus lc ArrowDown s =
           Inr (s\<lparr>selected := Some (map key (filtered lc s) !
                  nat ((key_index lc s + 1) mod int (length (filtered lc s))))\<rparr>)
       \<and> moveFocus lc ArrowUp s =
           Inr (s\<lparr>selected := Some (if 1 \<le> key_index lc s
                  then map key (filtered lc s) ! nat (key_index lc s - 1)
                  else last (map key (filtered lc s)))\<rparr>))"
proof (intro conjI impI)
  assume "filtered lc s = []"
  then show "moveFocus lc e s = Inr s" by (rule moveFocus_empty)
next
  assume ne: "filtered lc s \<noteq> []"
  have i: "selectedIndex lc s = key_index lc s"
    using assms by (rule selectedIndex_key_index)
  have b: "-1 \<le> key_index lc s" "key_index lc s < int (length (filtered lc s))"
    using selectedIndex_bounds [OF ne] i by simp_all
  have "nat ((key_index lc s + 1) mod int (length (filtered lc s))) < length (filtered lc s)"
    using ne by (simp add: nat_less_iff)
  then show "moveFocus lc ArrowDown s =
      Inr (s\<lparr>selected := Some (map key (filtered lc s) !
        nat ((key_index lc s + 1) mod int (length (filtered lc s))))\<rparr>)"
    using moveFocus_down [OF ne] i by simp
  have "1 \<le> key_index lc s \<Longrightarrow> nat (key_index lc s - 1) < length (filtered lc s)"
    using b by simp
  then show "moveFocus lc ArrowUp s =
      Inr (s\<lparr>selected := Some (if 1 \<le> key_index lc s
        then map key (filtered lc s) ! nat (key_index lc s - 1)
        else last (map key (filtered lc s)))\<rparr>)"
    using moveFocus_up [OF ne] i ne by (simp add: last_map)
qed

theorem moveFocus_by_key_index_witness:
  "distinct (map key (items example_open))
   \<and> moveFocus toLowerCase ArrowDown (example_open\<lparr>selected := Some (js ''b'')\<rparr>)
       = Inr (example_open\<lparr>selected := Some (js ''a'')\<rparr>)
   \<and> moveFocus toLowerCase ArrowUp example_open = Inr (example_open\<lparr>selected := Some (js ''b'')\<rparr>)
   \<and> moveFocus toLowerCase ArrowDown (example_open\<lparr>selected := Some (js ''c'')\<rparr>)
       = Inr (example_open\<lparr>selected := Some (js ''a'')\<rparr>)"
proof -
  have d: "distinct (map key (items (example_open\<lparr>selected := sel\<rparr>)))" for sel
    by (simp add: example_open_def example_keys)
  have d0: "distinct (map key (items example_open))"
    by (simp add: example_open_def example_keys)
  have f0: "filtered toLowerCase example_open = filtered toLowerCase (example_open\<lparr>selected := Some (js ''a'')\<rparr>)"
    by (simp add: filtered_def)
  have s0: "selected example_open = Some (js ''a'')"
    by (simp add: example_open_def)
  show ?thesis
    using
      moveFocus_by_key_index
        [of "example_open\<lparr>selected := Some (js ''b'')\<rparr>" toLowerCase ArrowDown, OF d]
      moveFocus_by_key_index [of example_open toLowerCase ArrowUp, OF d0]
      moveFocus_by_key_index
        [of "example_open\<lparr>selected := Some (js ''c'')\<rparr>" toLowerCase ArrowDown, OF d]
      d0
    by (simp add: filtered_example_open f0 s0 key_index_def)
qed

text \<open>
  Where the selection is absent or in the filtered list, which is every state that a
  sequence of operations reaches, \<open>moveFocus\<close> does what the specification's words say.
\<close>

lemma moveFocus_agrees_when_valid:
  assumes d: "distinct (map key (items s))" and v: "selection_valid lc s"
  shows "moveFocus lc ArrowDown s = Inr (spec_moveSelection lc Next s)
    \<and> moveFocus lc ArrowUp s = Inr (spec_moveSelection lc Previous s)"
proof (cases "filtered lc s = []")
  case True
  then show ?thesis by (simp add: moveFocus_empty spec_moveSelection_def)
next
  case False
  let ?i = "spec_index (filtered lc s) (selected s)"
  have i: "selectedIndex lc s = int ?i"
  proof (cases "selected s")
    case None
    then show ?thesis by (simp add: selectedIndex_def spec_index_def)
  next
    case (Some k)
    then have "k \<in> set (map key (filtered lc s))"
      using v by (simp add: selection_valid_def)
    then show ?thesis
      using selectedIndex_key_index [OF d] Some indexOf_in [of k "map key (filtered lc s)"]
      by (simp add: key_index_def spec_index_def)
  qed
  have "nat ((int ?i + 1) mod int (length (filtered lc s))) = (?i + 1) mod length (filtered lc s)"
    by (simp add: nat_mod_distrib nat_add_distrib)
  then have down: "moveFocus lc ArrowDown s = Inr (spec_moveSelection lc Next s)"
    using False moveFocus_down [OF False] i by (simp add: spec_moveSelection_def Let_def)
  have "moveFocus lc ArrowUp s = Inr (spec_moveSelection lc Previous s)"
    using False moveFocus_up [OF False] i
    by (auto simp: spec_moveSelection_def Let_def nat_diff_distrib)
  with down show ?thesis by simp
qed

subsection \<open>The effect that recomputes the selection\<close>

text \<open>
  C3. The effect sets the selection to the key of the first element of the filtered
  list, or to absent when the list is empty, whatever the selection was. It runs
  whenever the filtered list changes: after a query other than the current one (every
  change of the filtered list by typing is such a query) and after a change of the
  item list. The selection is reset even when the selected key is still in the new
  filtered list.
\<close>

theorem selection_reset_to_first_filtered:
  "selected (recomputeSelection lc s) = (case filtered lc s of [] \<Rightarrow> None | x # _ \<Rightarrow> Some (key x))
   \<and> (v \<noteq> predicate s \<or> filtered lc (setPredicate lc v s) \<noteq> filtered lc s \<longrightarrow>
        selected (setPredicate lc v s) =
          (case filtered lc (setPredicate lc v s) of [] \<Rightarrow> None | x # _ \<Rightarrow> Some (key x)))
   \<and> selected (itemsChanged lc its s) =
          (case filtered lc (itemsChanged lc its s) of [] \<Rightarrow> None | x # _ \<Rightarrow> Some (key x))"
proof (intro conjI impI)
  show "selected (recomputeSelection lc s) =
      (case filtered lc s of [] \<Rightarrow> None | x # _ \<Rightarrow> Some (key x))"
    by (simp add: selected_recomputeSelection first_key_case)
next
  assume "v \<noteq> predicate s \<or> filtered lc (setPredicate lc v s) \<noteq> filtered lc s"
  then have "v \<noteq> predicate s"
    by (auto simp: setPredicate_def)
  then have "setPredicate lc v s = recomputeSelection lc (s\<lparr>predicate := v\<rparr>)"
    by (simp add: setPredicate_def)
  then show "selected (setPredicate lc v s) =
      (case filtered lc (setPredicate lc v s) of [] \<Rightarrow> None | x # _ \<Rightarrow> Some (key x))"
    by (simp add: selected_recomputeSelection first_key_case)
next
  show "selected (itemsChanged lc its s) =
      (case filtered lc (itemsChanged lc its s) of [] \<Rightarrow> None | x # _ \<Rightarrow> Some (key x))"
    by (simp add: itemsChanged_def selected_recomputeSelection first_key_case)
qed

theorem selection_reset_to_first_filtered_witness:
  "js ''ope'' \<noteq> predicate (example_open\<lparr>selected := Some (js ''b'')\<rparr>)
   \<and> js ''b'' \<in> key ` set (filtered toLowerCase
         (setPredicate toLowerCase (js ''ope'') (example_open\<lparr>selected := Some (js ''b'')\<rparr>)))
   \<and> selected (setPredicate toLowerCase (js ''ope'') (example_open\<lparr>selected := Some (js ''b'')\<rparr>)) = Some (js ''a'')"
proof -
  have p: "js ''ope'' \<noteq> predicate (example_open\<lparr>selected := Some (js ''b'')\<rparr>)"
    by (simp add: example_open_def)
  have f: "filtered toLowerCase (setPredicate toLowerCase (js ''ope'') (example_open\<lparr>selected := Some (js ''b'')\<rparr>)) =
     [\<lparr>ident = 0, key = js ''a'', name = js ''Open File''\<rparr>,
      \<lparr>ident = 1, key = js ''b'', name = js ''Open Folder''\<rparr>]"
    by code_simp
  show ?thesis
    using selection_reset_to_first_filtered
      [of toLowerCase "example_open\<lparr>selected := Some (js ''b'')\<rparr>" "js ''ope''"] p
    by (simp add: f)
qed

subsection \<open>The selection is a key of the filtered list\<close>

text \<open>
  C4. From the state in which the palette opens, every sequence of the operations
  (typing a query, an arrow key, the effect, accepting) runs without raising, and in
  the state it reaches a present selection is the key of an item of the current
  filtered list.
\<close>

theorem selection_in_filtered_items:
  "(\<exists>s. run lc ops (openState lc its body) = Inr s)
   \<and> (\<forall>s k. run lc ops (openState lc its body) = Inr s \<longrightarrow> selected s = Some k \<longrightarrow>
         k \<in> key ` set (filtered lc s))"
  using run_openState [of lc ops its body] by (auto simp: selection_valid_def)

theorem selection_in_filtered_items_witness:
  "run toLowerCase [SetQuery (js ''open''), MoveSelection ArrowDown, SetQuery (js ''save'')]
       (openState toLowerCase example_items [])
     = Inr (example_open\<lparr>predicate := js ''save'', selected := Some (js ''c'')\<rparr>)
   \<and> (js ''c'') \<in> key ` set (filtered toLowerCase (example_open\<lparr>predicate := js ''save'', selected := Some (js ''c'')\<rparr>))"
proof -
  have "selected (example_open\<lparr>predicate := js ''save'', selected := Some (js ''c'')\<rparr>) = Some (js ''c'')"
    by simp
  then show ?thesis
    using selection_in_filtered_items
      [of toLowerCase
        "[SetQuery (js ''open''), MoveSelection ArrowDown, SetQuery (js ''save'')]"
        example_items "[]"]
      run_example_save
    by simp
qed

text \<open>
  The render between a state update and the effect is not a state between operations.
  In it the selection can still be a key of the previous filter pass: after the query
  \<open>save\<close> the selection \<open>a\<close> is not in the filtered list until the effect has run.
\<close>

lemma render_before_effect:
  "\<not> selection_valid toLowerCase (example_open\<lparr>predicate := js ''save''\<rparr>)
   \<and> selection_valid toLowerCase (recomputeSelection toLowerCase (example_open\<lparr>predicate := js ''save''\<rparr>))"
proof -
  have "filtered toLowerCase (example_open\<lparr>predicate := js ''save''\<rparr>)
      = [\<lparr>ident = 2, key = js ''c'', name = js ''Save''\<rparr>]"
    by code_simp
  moreover have "selected (example_open\<lparr>predicate := js ''save''\<rparr>) = Some (js ''a'')"
    by (simp add: example_open_def)
  ultimately have "\<not> selection_valid toLowerCase (example_open\<lparr>predicate := js ''save''\<rparr>)"
    by (simp add: selection_valid_def)
  then show ?thesis
    by (simp add: valid_recomputeSelection)
qed

subsection \<open>A change of the item list\<close>

text \<open>
  C5, as stated, fails: \<^verbatim>\<open>predicate\<close> is a \<^verbatim>\<open>useState\<close> value that only
  \<^verbatim>\<open>onInput\<close> writes, and no effect depends on \<^verbatim>\<open>items\<close> to reset it. After the
  query \<open>open\<close>, a render with another item list leaves the query \<open>open\<close>.
\<close>

theorem itemsChanged_keeps_query_counterexample:
  "run toLowerCase [SetQuery (js ''open'')] (openState toLowerCase example_items []) = Inr example_open
   \<and> predicate (itemsChanged toLowerCase [\<lparr>ident = 3, key = js ''d'', name = js ''Open Recent''\<rparr>] example_open)
       = js ''open''
   \<and> predicate (itemsChanged toLowerCase [\<lparr>ident = 3, key = js ''d'', name = js ''Open Recent''\<rparr>] example_open)
       \<noteq> []"
proof -
  have "predicate (itemsChanged toLowerCase
      [\<lparr>ident = 3, key = js ''d'', name = js ''Open Recent''\<rparr>] example_open)
      = js ''open''"
    by (simp add: itemsChanged_def recomputeSelection_def example_open_def)
  with run_example_open show ?thesis
    by (simp del: run.simps)
qed

text \<open>
  C5, amended. When the item list changes while the container is mounted, the query
  keeps its value, for every prior query; the filtered list is computed from the new
  items with that query, and the selection becomes the key of its first element, or
  absent.
\<close>

theorem itemsChanged_keeps_query:
  "predicate (itemsChanged lc its s) = predicate s
   \<and> items (itemsChanged lc its s) = its
   \<and> filtered lc (itemsChanged lc its s) = filteredItems lc its (predicate s)
   \<and> selected (itemsChanged lc its s) = first_key (filteredItems lc its (predicate s))"
  by (simp add: itemsChanged_def recomputeSelection_def filtered_def)

subsection \<open>The scroll lock\<close>

text \<open>
  While \<^verbatim>\<open>Palette\<close> is mounted, the body style follows \<^verbatim>\<open>open\<close> on every path:
  the hotkey, escape and a click outside.
\<close>

lemma visibility_step_lock:
  assumes "mounted s" and "overflowY s = (if opened s then ''hidden'' else ''auto'')"
    and "e \<noteq> Unmount"
  shows "mounted (visibility_step lc s e)
    \<and> overflowY (visibility_step lc s e) = (if opened (visibility_step lc s e) then ''hidden'' else ''auto'')"
  using assms
  by (cases e)
    (simp_all add: visibility_step_def hotkey_def close_def scrollEffect_def
      mountContainer_def recomputeSelection_def Let_def)

lemma scroll_lock_follows_open:
  assumes "Unmount \<notin> set es"
  shows "mounted (visibility_run lc (mountPalette its body) es)
    \<and> overflowY (visibility_run lc (mountPalette its body) es)
        = (if opened (visibility_run lc (mountPalette its body) es) then ''hidden'' else ''auto'')"
  using assms
proof (induction es rule: rev_induct)
  case Nil
  then show ?case
    by (simp add: visibility_run_def mountPalette_def scrollEffect_def)
next
  case (snoc e es)
  then have "mounted (visibility_run lc (mountPalette its body) es)
    \<and> overflowY (visibility_run lc (mountPalette its body) es)
        = (if opened (visibility_run lc (mountPalette its body) es) then ''hidden'' else ''auto'')"
    and "e \<noteq> Unmount"
    by auto
  then show ?case
    using visibility_step_lock [of "visibility_run lc (mountPalette its body) es" e lc]
    by (simp add: visibility_run_def)
qed

text \<open>
  C6, at the input where it fails. The palette is mounted, opened with the hotkey, and
  then removed by its host: the effect of lines 21 to 23 has no cleanup, so the body
  keeps the style \<open>hidden\<close> after the palette is gone.
\<close>

theorem scroll_lock_kept_by_unmount:
  "\<not> mounted (visibility_run toLowerCase (mountPalette example_items []) [Hotkey, Unmount])
   \<and> overflowY (visibility_run toLowerCase (mountPalette example_items []) [Hotkey, Unmount]) = ''hidden''"
  by (simp add: visibility_run_def visibility_step_def mountPalette_def scrollEffect_def
      hotkey_def mountContainer_def recomputeSelection_def unmountPalette_def Let_def)

subsection \<open>Accepting the selection\<close>

text \<open>
  C7. In every state that a sequence of operations reaches from the open state,
  \<open>acceptCommand\<close> does not raise; with an absent selection it changes nothing and
  reports nothing; with a present selection it reports (by \<^verbatim>\<open>alert\<close>) the name of an
  item of the list whose key is the selection. So a report is made exactly when the
  selection is present.
\<close>

theorem acceptCommand_reports_selected_item:
  assumes "run lc ops (openState lc its body) = Inr s"
  shows "(case selected s of
            None \<Rightarrow> acceptCommand s = Inr s
          | Some k \<Rightarrow>
              (\<exists>c. c \<in> set (items s) \<and> key c = k
                 \<and> acceptCommand s = Inr (s\<lparr>alerts := alerts s @ [name c]\<rparr>)))
    \<and> (\<exists>s'. acceptCommand s = Inr s'
          \<and> (alerts s' \<noteq> alerts s \<longleftrightarrow> selected s \<noteq> None))"
proof -
  have v: "selection_valid lc s"
    using run_openState [of lc ops its body] assms by auto
  show ?thesis
  proof (cases "selected s")
    case None
    then show ?thesis by (simp add: acceptCommand_None)
  next
    case (Some k)
    from acceptCommand_Some [OF v Some] Some show ?thesis by auto
  qed
qed

theorem acceptCommand_reports_selected_item_witness:
  "run toLowerCase [SetQuery (js ''open''), MoveSelection ArrowDown] (openState toLowerCase example_items [])
     = Inr (example_open\<lparr>selected := Some (js ''b'')\<rparr>)
   \<and> acceptCommand (example_open\<lparr>selected := Some (js ''b'')\<rparr>)
     = Inr (example_open\<lparr>selected := Some (js ''b''), alerts := [js ''Open Folder'']\<rparr>)
   \<and> run toLowerCase [SetQuery (js ''xyz'')] (openState toLowerCase example_items [])
     = Inr (example_open\<lparr>predicate := js ''xyz'', selected := None\<rparr>)
   \<and> acceptCommand (example_open\<lparr>predicate := js ''xyz'', selected := None\<rparr>)
     = Inr (example_open\<lparr>predicate := js ''xyz'', selected := None\<rparr>)"
proof -
  have i: "items (example_open\<lparr>selected := Some (js ''b'')\<rparr>) = example_items"
    and a: "alerts (example_open\<lparr>selected := Some (js ''b'')\<rparr>) = []"
    by (simp_all add: example_open_def)
  have n: "\<And>c. c \<in> set example_items \<Longrightarrow> key c = js ''b'' \<Longrightarrow>
      name c = js ''Open Folder''"
    by (auto simp: example_items_def)
  show ?thesis
    using acceptCommand_reports_selected_item [OF run_example_next]
      acceptCommand_reports_selected_item [OF run_example_nothing]
      run_example_next run_example_nothing
    by (auto simp: i a dest: n)
qed

text \<open>
  C9. When the items have unique keys, a present selection in a reachable state is the
  key of exactly one item of the caller's list, \<open>itemMap\<close> maps it to that item, and
  \<open>acceptCommand\<close> does not read a property of \<^verbatim>\<open>undefined\<close>.
\<close>

theorem selection_resolves_in_itemMap:
  assumes "distinct (map key its)"
    and "run lc ops (openState lc its body) = Inr s"
    and "selected s = Some k"
  shows "k \<in> key ` set its
    \<and> (\<exists>c. itemMap (items s) k = Some c \<and> c \<in> set its \<and> key c = k
          \<and> (\<forall>d \<in> set its. key d = k \<longrightarrow> d = c))
    \<and> acceptCommand s \<noteq> Inl TypeError"
proof -
  have v: "selection_valid lc s" and i: "items s = its"
    using run_openState [of lc ops its body] assms(2) by auto
  from acceptCommand_Some [OF v assms(3)] obtain c where
    c: "c \<in> set its" "key c = k" "itemMap (items s) k = Some c"
      "acceptCommand s = Inr (s\<lparr>alerts := alerts s @ [name c]\<rparr>)"
    using i by auto
  have u: "\<forall>d \<in> set its. key d = k \<longrightarrow> d = c"
    using assms(1) c(1,2) by (metis distinct_map inj_onD)
  have 1: "k \<in> key ` set its"
    using c(1,2) by blast
  have 2: "\<exists>c. itemMap (items s) k = Some c \<and> c \<in> set its \<and> key c = k
      \<and> (\<forall>d \<in> set its. key d = k \<longrightarrow> d = c)"
    using c(1,2,3) u by blast
  have 3: "acceptCommand s \<noteq> Inl TypeError"
    by (simp only: c(4)) simp
  from 1 2 3 show ?thesis by blast
qed

theorem selection_resolves_in_itemMap_witness:
  "distinct (map key example_items)
   \<and> run toLowerCase [SetQuery (js ''open''), MoveSelection ArrowDown] (openState toLowerCase example_items [])
       = Inr (example_open\<lparr>selected := Some (js ''b'')\<rparr>)
   \<and> itemMap example_items (js ''b'') = Some \<lparr>ident = 1, key = js ''b'', name = js ''Open Folder''\<rparr>
   \<and> acceptCommand (example_open\<lparr>selected := Some (js ''b'')\<rparr>) \<noteq> Inl TypeError"
proof -
  have d: "distinct (map key example_items)"
    by (simp add: example_keys)
  have s: "selected (example_open\<lparr>selected := Some (js ''b'')\<rparr>) = Some (js ''b'')"
    by simp
  have m: "itemMap example_items (js ''b'') = Some \<lparr>ident = 1, key = js ''b'', name = js ''Open Folder''\<rparr>"
    by (simp add: itemMap_def example_items_def)
  show ?thesis
    using selection_resolves_in_itemMap [OF d run_example_next s] d run_example_next m
    by simp
qed

text \<open>
  C10. In every reachable state \<open>acceptCommand\<close> returns, and it leaves the palette
  open and the query, the items, the filtered list and the selection as they were; only
  the log of alerts can grow.
\<close>

theorem acceptCommand_keeps_state:
  assumes "run lc ops (openState lc its body) = Inr s"
  shows "\<exists>s'. acceptCommand s = Inr s' \<and> opened s \<and> opened s'
    \<and> predicate s' = predicate s \<and> items s' = items s
    \<and> filtered lc s' = filtered lc s \<and> selected s' = selected s
    \<and> overflowY s' = overflowY s \<and> mounted s' = mounted s"
proof -
  have v: "selection_valid lc s" and o: "opened s"
    using run_openState [of lc ops its body] assms by auto
  from acceptCommand_keeps [OF v] obtain a where "acceptCommand s = Inr (s\<lparr>alerts := a\<rparr>)"
    by blast
  with o show ?thesis by (simp add: filtered_def)
qed

theorem acceptCommand_keeps_state_witness:
  "run toLowerCase [SetQuery (js ''open''), MoveSelection ArrowDown] (openState toLowerCase example_items [])
     = Inr (example_open\<lparr>selected := Some (js ''b'')\<rparr>)
   \<and> acceptCommand (example_open\<lparr>selected := Some (js ''b'')\<rparr>)
     = Inr (example_open\<lparr>selected := Some (js ''b''), alerts := [js ''Open Folder'']\<rparr>)
   \<and> opened (example_open\<lparr>selected := Some (js ''b''), alerts := [js ''Open Folder'']\<rparr>)
   \<and> predicate (example_open\<lparr>selected := Some (js ''b''), alerts := [js ''Open Folder'']\<rparr>) = (js ''open'')
   \<and> selected (example_open\<lparr>selected := Some (js ''b''), alerts := [js ''Open Folder'']\<rparr>) = Some (js ''b'')"
proof -
  have a: "acceptCommand (example_open\<lparr>selected := Some (js ''b'')\<rparr>)
     = Inr (example_open\<lparr>selected := Some (js ''b''), alerts := [js ''Open Folder'']\<rparr>)"
    by (simp add: acceptCommand_def itemMap_def example_open_def example_items_def)
  show ?thesis
    using acceptCommand_keeps_state [OF run_example_next] run_example_next a
    by (simp add: example_open_def)
qed

subsection \<open>Clicks outside the container\<close>

text \<open>While the hook is mounted, exactly one handler is attached and the ref holds the element.\<close>

lemma hook_step_attached:
  assumes "listeners h = 1" and "current h = Some el"
  shows "listeners (hook_step h e) = 1 \<and> current (hook_step h e) = Some el"
  using assms
  by (cases e)
    (simp_all add: hook_step_def rerenderHook_def addListener_def removeListener_def
      click_def handler_def)

lemma hook_run_attached:
  "listeners (hook_run el es) = 1 \<and> current (hook_run el es) = Some el"
proof (induction es rule: rev_induct)
  case Nil
  then show ?case by (simp add: hook_run_def mountHook_def addListener_def)
next
  case (snoc e es)
  then show ?case
    using hook_step_attached [of "hook_run el es" el e] by (simp add: hook_run_def)
qed

text \<open>
  C8. While the container is mounted, through any renders and earlier clicks, a click
  on the document calls the callback exactly once when its target is outside the
  container element, and not at all when the target is inside.
\<close>

theorem outside_click_calls_once:
  "calls (click t (hook_run el es)) = calls (hook_run el es) + (if t \<in> el then 0 else 1)"
  using hook_run_attached [of el es] by (simp add: click_def handler_def)

text \<open>After the unmount the handler is detached, and a click calls nothing.\<close>

lemma no_call_after_unmount:
  "calls (click t (unmountHook (hook_run el es))) = calls (hook_run el es)"
  using hook_run_attached [of el es]
  by (simp add: click_def unmountHook_def removeListener_def)

end
